theory Spec2Isabelle
  imports Main "HOL-Library.Sublist"
begin

section \<open>The timed queue of WCDB (objc/source/util/timed\_queue.hpp)\<close>

text \<open>
  \<^verbatim>\<open>TimedQueue<Key, Info>\<close> keeps a \<^verbatim>\<open>std::list\<close> of shared elements, newest at the
  front, and a \<^verbatim>\<open>std::unordered_map\<close> from each key to the list iterator of its node.
  Every access to the two containers happens with \<^verbatim>\<open>m_mutex\<close> held, so the program is
  a sequence of critical sections; each critical section is a function on the state
  below, and an execution is a list of such sections in the order the mutex serialises
  them.

  Time points of \<^verbatim>\<open>std::chrono::steady_clock\<close> are counted in clock ticks and held in
  \<open>int\<close>: the 64-bit range of the tick counter is not reached by a monotonic clock that
  starts at boot plus a delay of at most \<open>2^31\<close> seconds, so no wrap-around is written.
  The readings of the clock are inputs of the model.
\<close>

subsection \<open>Data\<close>

type_synonym Time = int

text \<open>
  A \<^verbatim>\<open>List::iterator\<close> is the identity of a list node. It stays valid while the node is
  in the list, whatever happens to the other nodes, and two nodes of one list never
  share it.
\<close>

type_synonym iterator = nat

record ('k, 'i) Element =
  key :: 'k
  time :: Time
  info :: 'i

type_synonym ('k, 'i) List = "(iterator \<times> ('k, 'i) Element) list"

record ('k, 'i) timed_queue =
  m_map :: "'k \<rightharpoonup> iterator"
  m_list :: "('k, 'i) List"
  m_delay :: int
  m_break :: bool

text \<open>
  Undefined behaviour of the containers is a value of the model: erasing through an
  iterator whose node has left the list, and \<^verbatim>\<open>back()\<close> of an empty list.
\<close>

datatype fault = DanglingIterator | BackOfEmptyList

text \<open>
  \<^verbatim>\<open>m_delay\<close> is a \<^verbatim>\<open>std::chrono::seconds\<close>; adding it to a time point converts it to
  ticks of the clock. The period of \<^verbatim>\<open>steady_clock\<close> is a nanosecond in libstdc++ and
  libc++. No proof below depends on the number.
\<close>

definition ticks_per_second :: int where
  "ticks_per_second = 1000000000"

subsection \<open>Constructor and producer operations\<close>

definition TimedQueue :: "int \<Rightarrow> ('k, 'i) timed_queue" where
  "TimedQueue delay = \<lparr>m_map = Map.empty, m_list = [], m_delay = delay, m_break = False\<rparr>"

text \<open>
  \<^verbatim>\<open>push_front\<close> allocates a node; its iterator differs from that of every node in the
  list. The model takes the successor of the largest iterator in use. The proofs use
  only that it is not in use.
\<close>

definition fresh_iterator :: "('k, 'i) List \<Rightarrow> iterator" where
  "fresh_iterator l = foldr max (map fst l) 0 + 1"

text \<open>\<^verbatim>\<open>m_list.erase(it)\<close> unlinks the node that \<open>it\<close> designates.\<close>

definition erase :: "iterator \<Rightarrow> ('k, 'i) List \<Rightarrow> ('k, 'i) List" where
  "erase it l = filter (\<lambda>n. fst n \<noteq> it) l"

text \<open>
  \<^verbatim>\<open>m_map.insert({key, it})\<close> of \<^verbatim>\<open>std::unordered_map\<close> stores nothing when the key is
  already present.
\<close>

definition map_insert :: "('k \<rightharpoonup> iterator) \<Rightarrow> 'k \<Rightarrow> iterator \<Rightarrow> ('k \<rightharpoonup> iterator)" where
  "map_insert m k it = (case m k of None \<Rightarrow> m(k \<mapsto> it) | Some _ \<Rightarrow> m)"

definition unsafeRemove :: "'k \<Rightarrow> ('k, 'i) timed_queue \<Rightarrow> fault + ('k, 'i) timed_queue" where
  "unsafeRemove k q =
     (case m_map q k of
        None \<Rightarrow> Inr q
      | Some it \<Rightarrow>
          if it \<in> set (map fst (m_list q))
          then Inr (q\<lparr>m_list := erase it (m_list q), m_map := (m_map q)(k := None)\<rparr>)
          else Inl DanglingIterator)"

text \<open>
  \<^verbatim>\<open>reQueue\<close> reads the clock inside the critical section; \<open>now\<close> is that reading.
  \<^verbatim>\<open>m_cond.notify_one()\<close> changes no member.
\<close>

definition reQueue ::
  "Time \<Rightarrow> 'k \<Rightarrow> 'i \<Rightarrow> ('k, 'i) timed_queue \<Rightarrow> fault + ('k, 'i) timed_queue" where
  "reQueue now k i q =
     (case unsafeRemove k q of
        Inl f \<Rightarrow> Inl f
      | Inr q1 \<Rightarrow>
          let element = \<lparr>key = k, time = now + m_delay q1 * ticks_per_second, info = i\<rparr>;
              it = fresh_iterator (m_list q1)
          in Inr (q1\<lparr>m_list := (it, element) # m_list q1,
                     m_map := map_insert (m_map q1) k it\<rparr>))"

definition remove :: "'k \<Rightarrow> ('k, 'i) timed_queue \<Rightarrow> fault + ('k, 'i) timed_queue" where
  "remove k q = unsafeRemove k q"

text \<open>
  \<^verbatim>\<open>notify\<close> takes no mutex: \<^verbatim>\<open>m_break\<close> is a \<^verbatim>\<open>std::atomic<bool>\<close>, and its store is
  one step of an execution. No critical section other than the first loop of
  \<^verbatim>\<open>waitUntilExpired\<close> reads the flag.
\<close>

definition notify :: "('k, 'i) timed_queue \<Rightarrow> ('k, 'i) timed_queue" where
  "notify q = q\<lparr>m_break := True\<rparr>"

subsection \<open>The consumer\<close>

text \<open>
  The critical section of the second loop of \<^verbatim>\<open>waitUntilExpired\<close> (lines 89 to 97),
  with \<open>now\<close> the clock reading of line 88. It yields the flag \<^verbatim>\<open>get\<close>, the element
  read from the back of the list and the new state.
\<close>

definition checkExpired ::
  "Time \<Rightarrow> ('k, 'i) timed_queue \<Rightarrow> fault + (bool \<times> ('k, 'i) Element \<times> ('k, 'i) timed_queue)" where
  "checkExpired now q =
     (if m_list q = [] then Inl BackOfEmptyList
      else
        let element = snd (last (m_list q))
        in if now > time element
           then Inr (True, element,
                     q\<lparr>m_list := butlast (m_list q), m_map := (m_map q)(key element := None)\<rparr>)
           else Inr (False, element, q))"

text \<open>
  The critical sections that change the state, as events. \<open>Expire now\<close> is one pass of a
  consumer through \<open>checkExpired\<close>. A step yields the elements it hands to a callback.
\<close>

datatype ('k, 'i) event = ReQueue Time 'k 'i | Remove 'k | Notify | Expire Time

definition step ::
  "('k, 'i) event \<Rightarrow> ('k, 'i) timed_queue
     \<Rightarrow> fault + (('k, 'i) Element list \<times> ('k, 'i) timed_queue)" where
  "step ev q =
     (case ev of
        ReQueue now k i \<Rightarrow> (case reQueue now k i q of Inl f \<Rightarrow> Inl f | Inr q' \<Rightarrow> Inr ([], q'))
      | Remove k \<Rightarrow> (case remove k q of Inl f \<Rightarrow> Inl f | Inr q' \<Rightarrow> Inr ([], q'))
      | Notify \<Rightarrow> Inr ([], notify q)
      | Expire now \<Rightarrow>
          (case checkExpired now q of
             Inl f \<Rightarrow> Inl f
           | Inr (get, element, q') \<Rightarrow> Inr (if get then [element] else [], q')))"

fun run ::
  "('k, 'i) event list \<Rightarrow> ('k, 'i) timed_queue
     \<Rightarrow> fault + (('k, 'i) Element list \<times> ('k, 'i) timed_queue)" where
  "run [] q = Inr ([], q)"
| "run (ev # evs) q =
     (case step ev q of
        Inl f \<Rightarrow> Inl f
      | Inr (out, q1) \<Rightarrow>
          (case run evs q1 of Inl f \<Rightarrow> Inl f | Inr (outs, q2) \<Rightarrow> Inr (out @ outs, q2)))"

text \<open>
  The first loop of \<^verbatim>\<open>waitUntilExpired\<close> (lines 75 to 84). Each \<^verbatim>\<open>m_cond.wait\<close> gives
  the mutex up; the schedule \<open>ws\<close> holds, for each wait, the events of the other threads
  until the consumer holds the mutex again. A schedule that ends while the consumer
  waits stands for a call that has not returned: \<open>None\<close>. The flag of the result says
  whether the call goes on to the second loop (\<open>True\<close>) or returns at line 81.
\<close>

fun waitNonEmpty ::
  "('k, 'i) event list list \<Rightarrow> ('k, 'i) timed_queue
     \<Rightarrow> (fault + (bool \<times> ('k, 'i) timed_queue)) option" where
  "waitNonEmpty [] q =
     (if m_list q = []
      then (if \<not> m_break q then None else Some (Inr (False, q)))
      else Some (Inr (True, q)))"
| "waitNonEmpty (evs # ws) q =
     (if m_list q = []
      then (if \<not> m_break q
            then (case run evs q of
                    Inl f \<Rightarrow> Some (Inl f)
                  | Inr (_, q1) \<Rightarrow> waitNonEmpty ws q1)
            else Some (Inr (False, q)))
      else Some (Inr (True, q)))"

text \<open>
  The second loop (lines 85 to 103). A round \<open>(evs, now)\<close> of the schedule holds the
  events of the other threads since the consumer last gave up the mutex and the
  consumer's clock reading of line 88. The callback acts on the caller's own state
  \<open>w\<close>; the durations handed to \<^verbatim>\<open>sleep_for\<close> are collected in \<open>slept\<close>.
\<close>

fun expireLoop ::
  "('k \<Rightarrow> 'i \<Rightarrow> 'w \<Rightarrow> 'w) \<Rightarrow> (('k, 'i) event list \<times> Time) list \<Rightarrow> 'w \<Rightarrow> int list
     \<Rightarrow> ('k, 'i) timed_queue \<Rightarrow> (fault + ('w \<times> int list \<times> ('k, 'i) timed_queue)) option" where
  "expireLoop onExpired [] w slept q = None"
| "expireLoop onExpired ((evs, now) # rs) w slept q =
     (case run evs q of
        Inl f \<Rightarrow> Some (Inl f)
      | Inr (_, q1) \<Rightarrow>
          (case checkExpired now q1 of
             Inl f \<Rightarrow> Some (Inl f)
           | Inr (get, element, q2) \<Rightarrow>
               if get then Some (Inr (onExpired (key element) (info element) w, slept, q2))
               else expireLoop onExpired rs w (slept @ [time element - now]) q2))"

text \<open>
  \<^verbatim>\<open>waitUntilExpired\<close> returns \<^verbatim>\<open>void\<close>: what the caller has after the call is the state
  \<open>w\<close> its callback worked on. The members of the queue are protected.
\<close>

definition waitUntilExpired ::
  "('k \<Rightarrow> 'i \<Rightarrow> 'w \<Rightarrow> 'w) \<Rightarrow> ('k, 'i) event list list \<Rightarrow> (('k, 'i) event list \<times> Time) list
     \<Rightarrow> 'w \<Rightarrow> ('k, 'i) timed_queue \<Rightarrow> (fault + ('w \<times> int list \<times> ('k, 'i) timed_queue)) option" where
  "waitUntilExpired onExpired ws rs w q =
     (case waitNonEmpty ws q of
        None \<Rightarrow> None
      | Some (Inl f) \<Rightarrow> Some (Inl f)
      | Some (Inr (proceed, q1)) \<Rightarrow>
          if proceed then expireLoop onExpired rs w [] q1 else Some (Inr (w, [], q1)))"

subsection \<open>Observations of a state and of an execution\<close>

definition elements :: "('k, 'i) timed_queue \<Rightarrow> ('k, 'i) Element list" where
  "elements q = map snd (m_list q)"

text \<open>
  The index and the sequence agree: the keys of the index are the keys of the elements
  in the list, no key and no iterator occurs twice in the list, and the index maps the
  key of every node to that node's iterator.
\<close>

definition consistent :: "('k, 'i) timed_queue \<Rightarrow> bool" where
  "consistent q =
     (dom (m_map q) = set (map key (elements q)) \<and>
      distinct (map key (elements q)) \<and>
      distinct (map fst (m_list q)) \<and>
      (\<forall>n \<in> set (m_list q). m_map q (key (snd n)) = Some (fst n)))"

subsection \<open>States of a small execution\<close>

text \<open>
  A queue with a delay of two seconds: \<open>A\<close> is queued at tick 0 and \<open>B\<close> one second
  later (\<open>queue_AB\<close>); then \<open>A\<close> is queued again half a second after that
  (\<open>queue_BA\<close>), or \<open>A\<close> leaves the queue (\<open>queue_B\<close>).
\<close>

definition queue_A :: "(string, string) timed_queue" where
  "queue_A = \<lparr>m_map = [''A'' \<mapsto> 1],
              m_list = [(1, \<lparr>key = ''A'', time = 2000000000, info = ''x''\<rparr>)],
              m_delay = 2, m_break = False\<rparr>"

definition queue_AB :: "(string, string) timed_queue" where
  "queue_AB = \<lparr>m_map = [''A'' \<mapsto> 1, ''B'' \<mapsto> 2],
               m_list = [(2, \<lparr>key = ''B'', time = 3000000000, info = ''y''\<rparr>),
                         (1, \<lparr>key = ''A'', time = 2000000000, info = ''x''\<rparr>)],
               m_delay = 2, m_break = False\<rparr>"

definition queue_BA :: "(string, string) timed_queue" where
  "queue_BA = queue_AB\<lparr>m_list := [(3, \<lparr>key = ''A'', time = 3500000000, info = ''z''\<rparr>),
                                      (2, \<lparr>key = ''B'', time = 3000000000, info = ''y''\<rparr>)],
                          m_map := (m_map queue_AB)(''A'' \<mapsto> 3)\<rparr>"

definition queue_B :: "(string, string) timed_queue" where
  "queue_B = queue_AB\<lparr>m_list := [(2, \<lparr>key = ''B'', time = 3000000000, info = ''y''\<rparr>)],
                         m_map := (m_map queue_AB)(''A'' := None)\<rparr>"

subsection \<open>Callbacks of a caller\<close>

text \<open>
  Two callbacks: one appends the key and payload it is given to the caller's log, one
  leaves the caller's state as it is. \<open>caller_state\<close> is what a caller holds when
  \<^verbatim>\<open>waitUntilExpired\<close> has returned: the function returns \<^verbatim>\<open>void\<close>, so only the state its
  callback worked on.
\<close>

definition log_callback :: "'k \<Rightarrow> 'i \<Rightarrow> ('k \<times> 'i) list \<Rightarrow> ('k \<times> 'i) list" where
  "log_callback k i l = l @ [(k, i)]"

definition silent_callback :: "'k \<Rightarrow> 'i \<Rightarrow> nat \<Rightarrow> nat" where
  "silent_callback k i w = w"

definition caller_state ::
  "(fault + ('w \<times> int list \<times> ('k, 'i) timed_queue)) option \<Rightarrow> (fault + 'w) option" where
  "caller_state r = map_option (map_sum id fst) r"

subsection \<open>Insertions and clock readings of an execution\<close>

text \<open>
  The elements that the \<^verbatim>\<open>reQueue\<close> events of an execution create, in the order of the
  events, for a queue of delay \<open>d\<close>; and the clock readings of those events.
\<close>

fun inserted :: "int \<Rightarrow> ('k, 'i) event list \<Rightarrow> ('k, 'i) Element list" where
  "inserted d [] = []"
| "inserted d (ReQueue now k i # evs) =
     \<lparr>key = k, time = now + d * ticks_per_second, info = i\<rparr> # inserted d evs"
| "inserted d (ev # evs) = inserted d evs"

fun readings :: "('k, 'i) event list \<Rightarrow> Time list" where
  "readings [] = []"
| "readings (ReQueue now k i # evs) = now # readings evs"
| "readings (ev # evs) = readings evs"


section \<open>Properties\<close>

subsection \<open>Iterators and the index\<close>

lemma foldr_max_ge: "x \<in> set xs \<Longrightarrow> x \<le> foldr max xs (0::nat)"
  by (induction xs) auto

lemma fresh_iterator_unused: "fresh_iterator l \<notin> set (map fst l)"
proof
  assume "fresh_iterator l \<in> set (map fst l)"
  then have "fresh_iterator l \<le> foldr max (map fst l) 0" by (rule foldr_max_ge)
  then show False by (simp add: fresh_iterator_def)
qed

lemma consistent_TimedQueue: "consistent (TimedQueue d)"
  by (simp add: consistent_def TimedQueue_def elements_def)

lemma consistent_lookup:
  assumes "consistent q"
  shows "m_map q k = Some it \<longleftrightarrow> (\<exists>e. (it, e) \<in> set (m_list q) \<and> key e = k)"
proof
  assume "m_map q k = Some it"
  then have "k \<in> dom (m_map q)" by auto
  with assms have "k \<in> set (map key (elements q))" by (simp add: consistent_def)
  then obtain n where n: "n \<in> set (m_list q)" "key (snd n) = k"
    by (auto simp: elements_def)
  with assms have "m_map q k = Some (fst n)" by (auto simp: consistent_def)
  with \<open>m_map q k = Some it\<close> have "fst n = it" by simp
  with n have "(it, snd n) \<in> set (m_list q)" by auto
  with n show "\<exists>e. (it, e) \<in> set (m_list q) \<and> key e = k"
    by blast
next
  assume "\<exists>e. (it, e) \<in> set (m_list q) \<and> key e = k"
  with assms show "m_map q k = Some it" by (fastforce simp: consistent_def)
qed

lemma consistent_erase_by_key:
  assumes "consistent q" and "m_map q k = Some it"
  shows "erase it (m_list q) = filter (\<lambda>n. key (snd n) \<noteq> k) (m_list q)"
  unfolding erase_def
proof (rule filter_cong[OF refl])
  fix n assume n: "n \<in> set (m_list q)"
  from assms obtain e where e: "(it, e) \<in> set (m_list q)" "key e = k"
    by (auto simp: consistent_lookup)
  show "(fst n \<noteq> it) = (key (snd n) \<noteq> k)"
  proof
    assume "fst n \<noteq> it"
    show "key (snd n) \<noteq> k"
    proof
      assume "key (snd n) = k"
      with assms(1) n have "m_map q k = Some (fst n)" by (auto simp: consistent_def)
      with assms(2) \<open>fst n \<noteq> it\<close> show False by simp
    qed
  next
    assume neq: "key (snd n) \<noteq> k"
    show "fst n \<noteq> it"
    proof
      assume "fst n = it"
      with n have "(it, snd n) \<in> set (m_list q)" by auto
      moreover from assms(1) have "distinct (map fst (m_list q))"
        by (simp add: consistent_def)
      ultimately have "snd n = e" using e(1) by (rule_tac eq_key_imp_eq_value)
      with e(2) neq show False by simp
    qed
  qed
qed

lemma absent_filter_key:
  assumes "consistent q" and "m_map q k = None"
  shows "filter (\<lambda>n. key (snd n) \<noteq> k) (m_list q) = m_list q"
proof -
  from assms(2) have "k \<notin> dom (m_map q)" by (simp add: domIff)
  with assms(1) have "k \<notin> set (map key (elements q))"
    by (simp add: consistent_def)
  then show ?thesis by (auto simp: elements_def filter_id_conv)
qed

lemma unsafeRemove_consistent:
  assumes "consistent q"
  shows "unsafeRemove k q =
           Inr (q\<lparr>m_list := filter (\<lambda>n. key (snd n) \<noteq> k) (m_list q),
                  m_map := (m_map q)(k := None)\<rparr>)"
proof (cases "m_map q k")
  case None
  then have "(m_map q)(k := None) = m_map q" by (simp add: fun_upd_idem)
  with None assms show ?thesis
    by (simp add: unsafeRemove_def absent_filter_key)
next
  case (Some it)
  with assms have "it \<in> set (map fst (m_list q))"
    by (force simp: consistent_lookup)
  with Some assms show ?thesis
    by (simp add: unsafeRemove_def consistent_erase_by_key)
qed

lemma consistent_filter_key:
  assumes "consistent q"
  shows "consistent (q\<lparr>m_list := filter (\<lambda>n. key (snd n) \<noteq> k) (m_list q),
                        m_map := (m_map q)(k := None)\<rparr>)"
  using assms
  by (auto simp: consistent_def elements_def distinct_map_filter domIff)

lemma consistent_push_front:
  assumes "consistent q" and "m_map q k = None" and "it \<notin> set (map fst (m_list q))"
    and "key e = k"
  shows "consistent (q\<lparr>m_list := (it, e) # m_list q, m_map := (m_map q)(k \<mapsto> it)\<rparr>)"
proof -
  from assms(2) have "k \<notin> dom (m_map q)" by (simp add: domIff)
  with assms(1) have "k \<notin> set (map key (elements q))" by (simp add: consistent_def)
  with assms show ?thesis
    by (auto simp: consistent_def elements_def)
qed

lemma consistent_pop_back:
  assumes "consistent q" and "m_list q \<noteq> []"
  shows "consistent (q\<lparr>m_list := butlast (m_list q),
                        m_map := (m_map q)(key (snd (last (m_list q))) := None)\<rparr>)"
proof -
  from assms(2) obtain l n where l: "m_list q = l @ [n]"
    by (metis append_butlast_last_id)
  let ?k = "key (snd n)"
  from assms(1) l have d: "distinct (map fst l)" "distinct (map (key \<circ> snd) l)"
    and notin: "?k \<notin> (key \<circ> snd) ` set l"
    and dm: "dom (m_map q) = insert ?k ((key \<circ> snd) ` set l)"
    and look: "\<forall>n' \<in> set l. m_map q (key (snd n')) = Some (fst n')"
    by (auto simp: consistent_def elements_def)
  have other: "\<forall>n' \<in> set l. key (snd n') \<noteq> ?k"
    using notin by (simp add: image_iff) metis
  from dm notin have "dom ((m_map q)(?k := None)) = (key \<circ> snd) ` set l" by auto
  with d look other l show ?thesis
    by (simp add: consistent_def elements_def)
qed

subsection \<open>Shutdown request\<close>

text \<open>
  C8. \<^verbatim>\<open>notify\<close> is idempotent: called once or any number of times more, from any state,
  it gives the same state; it sets \<^verbatim>\<open>m_break\<close> and leaves the list, the index and the
  delay as they are.
\<close>

theorem notify_idempotent:
  "(notify ^^ Suc n) q = notify q \<and>
   notify q = q\<lparr>m_break := True\<rparr> \<and>
   m_break (notify q) \<and>
   m_list (notify q) = m_list q \<and>
   m_map (notify q) = m_map q \<and>
   m_delay (notify q) = m_delay q"
proof -
  have "(notify ^^ Suc n) q = notify q"
    by (induction n) (simp_all add: notify_def)
  then show ?thesis by (simp add: notify_def)
qed

subsection \<open>Every critical section keeps the index and the list consistent\<close>

lemma reQueue_consistent_eq:
  assumes "consistent q"
  shows "reQueue now k i q =
           Inr (q\<lparr>m_list := (fresh_iterator (filter (\<lambda>n. key (snd n) \<noteq> k) (m_list q)),
                              \<lparr>key = k, time = now + m_delay q * ticks_per_second, info = i\<rparr>)
                             # filter (\<lambda>n. key (snd n) \<noteq> k) (m_list q),
                  m_map := (m_map q)(k \<mapsto> fresh_iterator (filter (\<lambda>n. key (snd n) \<noteq> k) (m_list q)))\<rparr>)"
  by (simp add: reQueue_def unsafeRemove_consistent[OF assms] map_insert_def Let_def)

lemma reQueue_consistent:
  assumes "consistent q" and "reQueue now k i q = Inr q'"
  shows "consistent q'"
proof -
  let ?q1 = "q\<lparr>m_list := filter (\<lambda>n. key (snd n) \<noteq> k) (m_list q),
                m_map := (m_map q)(k := None)\<rparr>"
  let ?it = "fresh_iterator (m_list ?q1)"
  let ?e = "\<lparr>key = k, time = now + m_delay q * ticks_per_second, info = i\<rparr>"
  have "consistent ?q1" using assms(1) by (rule consistent_filter_key)
  moreover have "m_map ?q1 k = None" by simp
  moreover have "?it \<notin> set (map fst (m_list ?q1))" by (rule fresh_iterator_unused)
  moreover have "key ?e = k" by simp
  ultimately have "consistent (?q1\<lparr>m_list := (?it, ?e) # m_list ?q1, m_map := (m_map ?q1)(k \<mapsto> ?it)\<rparr>)"
    by (rule consistent_push_front)
  moreover from assms have "q' = ?q1\<lparr>m_list := (?it, ?e) # m_list ?q1, m_map := (m_map ?q1)(k \<mapsto> ?it)\<rparr>"
    by (simp add: reQueue_consistent_eq)
  ultimately show ?thesis by simp
qed

lemma remove_consistent:
  assumes "consistent q" and "remove k q = Inr q'"
  shows "consistent q'"
  using assms consistent_filter_key[OF assms(1), of k]
  by (simp add: remove_def unsafeRemove_consistent)

lemma notify_consistent: "consistent q \<Longrightarrow> consistent (notify q)"
  by (simp add: consistent_def notify_def elements_def)

lemma checkExpired_consistent:
  assumes "consistent q" and "checkExpired now q = Inr (get, e, q')"
  shows "consistent q'"
  using assms consistent_pop_back[OF assms(1)]
  by (auto simp: checkExpired_def Let_def split: if_splits)

lemma step_consistent:
  assumes "consistent q" and "step ev q = Inr (out, q')"
  shows "consistent q'"
  using assms
  by (cases ev)
     (auto simp: step_def split: sum.splits
           dest: reQueue_consistent remove_consistent checkExpired_consistent
           intro: notify_consistent)

lemma run_consistent:
  "consistent q \<Longrightarrow> run evs q = Inr (out, q') \<Longrightarrow> consistent q'"
proof (induction evs arbitrary: q out)
  case Nil
  then show ?case by simp
next
  case (Cons ev evs)
  from Cons.prems(2) obtain o1 q1 o2 where
    s: "step ev q = Inr (o1, q1)" and r: "run evs q1 = Inr (o2, q')"
    by (auto split: sum.splits)
  from Cons.prems(1) s have "consistent q1" by (rule step_consistent)
  then show ?case using r by (rule Cons.IH)
qed

lemma waitNonEmpty_consistent:
  "consistent q \<Longrightarrow> waitNonEmpty ws q = Some (Inr (b, q')) \<Longrightarrow> consistent q'"
proof (induction ws arbitrary: q)
  case Nil
  then show ?case by (auto split: if_splits)
next
  case (Cons evs ws)
  show ?case
  proof (cases "m_list q = [] \<and> \<not> m_break q")
    case True
    with Cons.prems(2) obtain o1 q1 where
      r: "run evs q = Inr (o1, q1)" and w: "waitNonEmpty ws q1 = Some (Inr (b, q'))"
      by (auto split: sum.splits)
    from Cons.prems(1) r have "consistent q1" by (rule run_consistent)
    then show ?thesis using w by (rule Cons.IH)
  next
    case False
    with Cons.prems show ?thesis by (auto split: if_splits)
  qed
qed

lemma expireLoop_consistent:
  "consistent q \<Longrightarrow> expireLoop f rs w slept q = Some (Inr (w', slept', q')) \<Longrightarrow> consistent q'"
proof (induction rs arbitrary: q slept)
  case Nil
  then show ?case by simp
next
  case (Cons r rs)
  obtain evs now where r: "r = (evs, now)" by (cases r)
  from Cons.prems(2) r obtain o1 q1 get e q2 where
    1: "run evs q = Inr (o1, q1)" and 2: "checkExpired now q1 = Inr (get, e, q2)"
    by (auto split: sum.splits)
  from Cons.prems(1) 1 have "consistent q1" by (rule run_consistent)
  then have c2: "consistent q2" using 2 by (rule checkExpired_consistent)
  show ?case
  proof (cases get)
    case True
    with Cons.prems(2) r 1 2 have "q' = q2" by simp
    with c2 show ?thesis by simp
  next
    case False
    with Cons.prems(2) r 1 2
    have "expireLoop f rs w (slept @ [time e - now]) q2 = Some (Inr (w', slept', q'))"
      by simp
    with c2 show ?thesis by (rule Cons.IH)
  qed
qed

lemma waitUntilExpired_consistent:
  assumes "consistent q" and "waitUntilExpired f ws rs w q = Some (Inr (w', slept, q'))"
  shows "consistent q'"
proof -
  from assms(2) obtain b q1 where
    g: "waitNonEmpty ws q = Some (Inr (b, q1))"
    by (auto simp: waitUntilExpired_def split: option.splits sum.splits)
  with assms(1) have c1: "consistent q1" by (rule waitNonEmpty_consistent)
  show ?thesis
  proof (cases b)
    case True
    with assms(2) g have "expireLoop f rs w [] q1 = Some (Inr (w', slept, q'))"
      by (simp add: waitUntilExpired_def)
    with c1 show ?thesis by (rule expireLoop_consistent)
  next
    case False
    with assms(2) g have "q' = q1" by (simp add: waitUntilExpired_def)
    with c1 show ?thesis by simp
  qed
qed

lemma step_delay: "step ev q = Inr (out, q') \<Longrightarrow> m_delay q' = m_delay q"
  by (cases ev)
     (auto simp: step_def reQueue_def remove_def unsafeRemove_def notify_def checkExpired_def
                 Let_def
           split: sum.splits option.splits if_splits)

lemma run_delay: "run evs q = Inr (out, q') \<Longrightarrow> m_delay q' = m_delay q"
proof (induction evs arbitrary: q out)
  case Nil
  then show ?case by simp
next
  case (Cons ev evs)
  from Cons.prems obtain o1 q1 o2 where
    s: "step ev q = Inr (o1, q1)" and r: "run evs q1 = Inr (o2, q')"
    by (auto split: sum.splits)
  from r have "m_delay q' = m_delay q1" by (rule Cons.IH)
  with s show ?case by (simp add: step_delay)
qed

lemma reachable_consistent:
  "run evs (TimedQueue d) = Inr (out, q) \<Longrightarrow> consistent q"
  using consistent_TimedQueue by (rule run_consistent)

lemma reachable_delay:
  "run evs (TimedQueue d) = Inr (out, q) \<Longrightarrow> m_delay q = d"
  by (drule run_delay) (simp add: TimedQueue_def)

subsection \<open>The small execution, evaluated\<close>

lemmas eval_defs =
  step_def reQueue_def remove_def unsafeRemove_def notify_def checkExpired_def
  TimedQueue_def map_insert_def fresh_iterator_def erase_def ticks_per_second_def Let_def
  numeral_2_eq_2 numeral_3_eq_3
  queue_A_def queue_AB_def queue_BA_def queue_B_def

lemma run_queue_A: "run [ReQueue 0 ''A'' ''x''] (TimedQueue 2) = Inr ([], queue_A)"
  by (simp add: eval_defs)

lemma run_queue_AB:
  "run [ReQueue 0 ''A'' ''x'', ReQueue 1000000000 ''B'' ''y''] (TimedQueue 2) = Inr ([], queue_AB)"
  by (simp add: eval_defs)

lemma reQueue_queue_AB: "reQueue 1500000000 ''A'' ''z'' queue_AB = Inr queue_BA"
  by (simp add: eval_defs)

lemma remove_queue_AB: "remove ''A'' queue_AB = Inr queue_B"
  by (simp add: eval_defs)

lemma checkExpired_queue_AB:
  "checkExpired 2500000000 queue_AB =
     Inr (True, \<lparr>key = ''A'', time = 2000000000, info = ''x''\<rparr>, queue_B)"
  by (simp add: eval_defs)

lemma waitUntilExpired_queue_AB:
  "waitUntilExpired (\<lambda>k i l. l @ [(k, i)]) [] [([], 1500000000), ([], 2500000000)] [] queue_AB =
     Some (Inr ([(''A'', ''x'')], [500000000], queue_B))"
  by (simp add: waitUntilExpired_def eval_defs)

text \<open>
  C9. The index and the list are consistent in the state of a new queue and in every
  state an execution reaches from it: the keys of the index are exactly the keys of the
  elements in the list, every key occurs in the list at most once, and the index maps
  each key to the iterator of the node that holds the element of that key.
  \<^verbatim>\<open>reQueue\<close>, \<^verbatim>\<open>remove\<close>, the critical section of the consumer and a whole call of
  \<^verbatim>\<open>waitUntilExpired\<close> keep it so.
\<close>

theorem index_consistent_with_list:
  "consistent (TimedQueue d :: ('k, 'i) timed_queue) \<and>
   (consistent q \<longrightarrow>
      (reQueue now k i q = Inr q1 \<longrightarrow> consistent q1) \<and>
      (remove k q = Inr q2 \<longrightarrow> consistent q2) \<and>
      (checkExpired t q = Inr (get, e, q3) \<longrightarrow> consistent q3) \<and>
      (waitUntilExpired f ws rs w q = Some (Inr (w', slept, q4)) \<longrightarrow> consistent q4)) \<and>
   (run evs (TimedQueue d) = Inr (out, q5) \<longrightarrow> consistent (q5 :: ('k, 'i) timed_queue))"
proof (intro conjI impI)
  show "consistent (TimedQueue d :: ('k, 'i) timed_queue)" by (rule consistent_TimedQueue)
next
  assume "consistent q" and "reQueue now k i q = Inr q1"
  then show "consistent q1" by (rule reQueue_consistent)
next
  assume "consistent q" and "remove k q = Inr q2"
  then show "consistent q2" by (rule remove_consistent)
next
  assume "consistent q" and "checkExpired t q = Inr (get, e, q3)"
  then show "consistent q3" by (rule checkExpired_consistent)
next
  assume "consistent q" and "waitUntilExpired f ws rs w q = Some (Inr (w', slept, q4))"
  then show "consistent q4" by (rule waitUntilExpired_consistent)
next
  assume "run evs (TimedQueue d) = Inr (out, q5)"
  then show "consistent q5" by (rule reachable_consistent)
qed

theorem index_consistent_with_list_witness:
  "consistent (TimedQueue 2 :: (string, string) timed_queue) \<and>
   consistent queue_AB \<and>
   reQueue 1500000000 ''A'' ''z'' queue_AB = Inr queue_BA \<and> consistent queue_BA \<and>
   remove ''A'' queue_AB = Inr queue_B \<and>
   checkExpired 2500000000 queue_AB =
     Inr (True, \<lparr>key = ''A'', time = 2000000000, info = ''x''\<rparr>, queue_B) \<and>
   waitUntilExpired (\<lambda>k i l. l @ [(k, i)]) [] [([], 1500000000), ([], 2500000000)] [] queue_AB =
     Some (Inr ([(''A'', ''x'')], [500000000], queue_B)) \<and>
   consistent queue_B \<and>
   run [ReQueue 0 ''A'' ''x'', ReQueue 1000000000 ''B'' ''y''] (TimedQueue 2) = Inr ([], queue_AB)"
proof -
  note inv = index_consistent_with_list
    [where d = 2 and q = queue_AB and now = 1500000000 and k = "''A''" and i = "''z''"
       and ?q1.0 = queue_BA and ?q2.0 = queue_B
       and t = 2500000000 and get = True
       and e = "\<lparr>key = ''A'', time = 2000000000, info = ''x''\<rparr>" and ?q3.0 = queue_B
       and f = "\<lambda>k i l. l @ [(k, i)]" and ws = "[]"
       and rs = "[([], 1500000000), ([], 2500000000)]" and w = "[]"
       and w' = "[(''A'', ''x'')]" and slept = "[500000000]" and ?q4.0 = queue_B
       and evs = "[ReQueue 0 ''A'' ''x'', ReQueue 1000000000 ''B'' ''y'']"
       and out = "[]" and ?q5.0 = queue_AB]
  have r: "run [ReQueue 0 ''A'' ''x'', ReQueue 1000000000 ''B'' ''y''] (TimedQueue 2)
             = Inr ([], queue_AB)"
    by (rule run_queue_AB)
  from inv have "consistent (TimedQueue 2 :: (string, string) timed_queue)" by (rule conjunct1)
  moreover from inv r have c: "consistent queue_AB" by blast
  moreover from inv c reQueue_queue_AB have "consistent queue_BA" by blast
  moreover from inv c waitUntilExpired_queue_AB have "consistent queue_B" by blast
  ultimately show ?thesis
    using r reQueue_queue_AB remove_queue_AB checkExpired_queue_AB waitUntilExpired_queue_AB
    by blast
qed

subsection \<open>Queueing a key again\<close>

lemma run_append:
  "run (xs @ ys) q =
     (case run xs q of
        Inl f \<Rightarrow> Inl f
      | Inr (o1, q1) \<Rightarrow>
          (case run ys q1 of Inl f \<Rightarrow> Inl f | Inr (o2, q2) \<Rightarrow> Inr (o1 @ o2, q2)))"
  by (induction xs arbitrary: q) (auto split: sum.splits)

lemma reQueue_live_entry:
  assumes "consistent q" and "reQueue now k i q = Inr q'"
  shows "filter (\<lambda>e. key e = k) (elements q') =
           [\<lparr>key = k, time = now + m_delay q * ticks_per_second, info = i\<rparr>]"
    and "filter (\<lambda>e. key e \<noteq> k) (elements q') = filter (\<lambda>e. key e \<noteq> k) (elements q)"
  using assms(2) unfolding reQueue_consistent_eq[OF assms(1)]
  by (auto simp: elements_def filter_map comp_def)

lemma run_reQueues:
  "consistent q \<Longrightarrow>
   \<exists>q'. run (map (\<lambda>(t, p). ReQueue t k p) calls) q = Inr ([], q') \<and>
        consistent q' \<and> m_delay q' = m_delay q"
proof (induction calls arbitrary: q)
  case Nil
  then show ?case by simp
next
  case (Cons c calls)
  obtain t p where c: "c = (t, p)" by (cases c)
  from Cons.prems obtain q1 where q1: "reQueue t k p q = Inr q1"
    by (auto simp: reQueue_consistent_eq)
  with Cons.prems have c1: "consistent q1" by (rule reQueue_consistent)
  from q1 have d1: "m_delay q1 = m_delay q"
    by (auto simp: reQueue_consistent_eq[OF Cons.prems])
  from Cons.IH[OF c1] obtain q' where
    "run (map (\<lambda>(t, p). ReQueue t k p) calls) q1 = Inr ([], q')"
    "consistent q'" "m_delay q' = m_delay q1"
    by blast
  with c q1 d1 show ?case by (simp add: step_def)
qed

text \<open>
  C1. In every state that an execution reaches, \<^verbatim>\<open>reQueue\<close> of any key and payload
  succeeds. The element the key had is removed first, by the removal that \<^verbatim>\<open>remove\<close>
  performs; the new element, with the key, the expiration \<open>now + delay\<close> and the
  payload, is at the front of the list in a node of its own, and the index maps the key
  to that node. The new element is then the only element of that key, the elements of
  the other keys are as before, and after any sequence of \<^verbatim>\<open>reQueue\<close> calls for the
  key only the payload and expiration of the last call are in the list for it.
\<close>

theorem reQueue_replaces_entry:
  assumes "run evs (TimedQueue d) = Inr (out, q)"
  shows "\<exists>q1 q' it q''.
           remove k q = Inr q1 \<and>
           reQueue now k i q = Inr q' \<and>
           it \<notin> set (map fst (m_list q1)) \<and>
           m_list q' = (it, \<lparr>key = k, time = now + d * ticks_per_second, info = i\<rparr>) # m_list q1 \<and>
           m_map q' = (m_map q1)(k \<mapsto> it) \<and>
           m_delay q' = m_delay q \<and> m_break q' = m_break q \<and>
           filter (\<lambda>e. key e = k) (elements q') =
             [\<lparr>key = k, time = now + d * ticks_per_second, info = i\<rparr>] \<and>
           filter (\<lambda>e. key e \<noteq> k) (elements q') = filter (\<lambda>e. key e \<noteq> k) (elements q) \<and>
           run (map (\<lambda>(t, p). ReQueue t k p) (calls @ [(now, i)])) q = Inr ([], q'') \<and>
           filter (\<lambda>e. key e = k) (elements q'') =
             [\<lparr>key = k, time = now + d * ticks_per_second, info = i\<rparr>]"
proof -
  from assms have c: "consistent q" by (rule reachable_consistent)
  from assms have d: "m_delay q = d" by (rule reachable_delay)
  let ?l1 = "filter (\<lambda>n. key (snd n) \<noteq> k) (m_list q)"
  let ?q1 = "q\<lparr>m_list := ?l1, m_map := (m_map q)(k := None)\<rparr>"
  let ?it = "fresh_iterator ?l1"
  let ?e = "\<lparr>key = k, time = now + d * ticks_per_second, info = i\<rparr>"
  let ?q' = "q\<lparr>m_list := (?it, ?e) # ?l1, m_map := (m_map q)(k \<mapsto> ?it)\<rparr>"
  have 1: "remove k q = Inr ?q1"
    by (simp add: remove_def unsafeRemove_consistent[OF c])
  have 2: "reQueue now k i q = Inr ?q'"
    by (simp add: reQueue_consistent_eq[OF c] d)
  have 3: "?it \<notin> set (map fst (m_list ?q1))"
    using fresh_iterator_unused[of ?l1] by simp
  from run_reQueues[OF c, of k calls] obtain q2 where
    q2: "run (map (\<lambda>(t, p). ReQueue t k p) calls) q = Inr ([], q2)"
      "consistent q2" "m_delay q2 = m_delay q"
    by blast
  from q2(2) obtain q3 where q3: "reQueue now k i q2 = Inr q3"
    by (auto simp: reQueue_consistent_eq)
  from q2(1) q3 have 4: "run (map (\<lambda>(t, p). ReQueue t k p) (calls @ [(now, i)])) q = Inr ([], q3)"
    by (simp add: run_append step_def)
  have 5: "filter (\<lambda>e. key e = k) (elements q3) = [?e]"
    using reQueue_live_entry(1)[OF q2(2) q3] q2(3) d by simp
  have 6: "filter (\<lambda>e. key e = k) (elements ?q') = [?e]"
    using reQueue_live_entry(1)[OF c 2] d by simp
  have 7: "filter (\<lambda>e. key e \<noteq> k) (elements ?q') = filter (\<lambda>e. key e \<noteq> k) (elements q)"
    using reQueue_live_entry(2)[OF c 2] by simp
  show ?thesis
    apply (rule exI[of _ ?q1], rule exI[of _ ?q'], rule exI[of _ ?it], rule exI[of _ q3])
    using 1 2 3 4 5 6 7 by simp
qed

theorem reQueue_replaces_entry_witness:
  "run [ReQueue 0 ''A'' ''x'', ReQueue 1000000000 ''B'' ''y''] (TimedQueue 2) = Inr ([], queue_AB) \<and>
   (\<exists>q1 q' it q''.
           remove ''A'' queue_AB = Inr q1 \<and>
           reQueue 1500000000 ''A'' ''z'' queue_AB = Inr q' \<and>
           it \<notin> set (map fst (m_list q1)) \<and>
           m_list q' = (it, \<lparr>key = ''A'', time = 1500000000 + 2 * ticks_per_second, info = ''z''\<rparr>) # m_list q1 \<and>
           m_map q' = (m_map q1)(''A'' \<mapsto> it) \<and>
           m_delay q' = m_delay queue_AB \<and> m_break q' = m_break queue_AB \<and>
           filter (\<lambda>e. key e = ''A'') (elements q') =
             [\<lparr>key = ''A'', time = 1500000000 + 2 * ticks_per_second, info = ''z''\<rparr>] \<and>
           filter (\<lambda>e. key e \<noteq> ''A'') (elements q') = filter (\<lambda>e. key e \<noteq> ''A'') (elements queue_AB) \<and>
           run (map (\<lambda>(t, p). ReQueue t ''A'' p) ([(1100000000, ''u''), (1200000000, ''v'')] @ [(1500000000, ''z'')])) queue_AB = Inr ([], q'') \<and>
           filter (\<lambda>e. key e = ''A'') (elements q'') =
             [\<lparr>key = ''A'', time = 1500000000 + 2 * ticks_per_second, info = ''z''\<rparr>])"
  by (rule conjI [OF run_queue_AB reQueue_replaces_entry [OF run_queue_AB]])

subsection \<open>Removing a key\<close>

text \<open>
  C7. In every state that an execution reaches, \<^verbatim>\<open>remove\<close> succeeds; it takes the
  node of the key out of the list and the key out of the index, and leaves the other
  nodes, in their order, the other index entries, the delay and the shutdown flag as
  they are. When no element has the key, the state is unchanged.
\<close>

theorem remove_frame:
  assumes "run evs (TimedQueue d) = Inr (out, q)"
  shows "\<exists>q'. remove k q = Inr q' \<and>
           m_list q' = filter (\<lambda>n. key (snd n) \<noteq> k) (m_list q) \<and>
           m_map q' = (m_map q)(k := None) \<and>
           m_delay q' = m_delay q \<and> m_break q' = m_break q \<and>
           k \<notin> set (map key (elements q')) \<and>
           (k \<notin> set (map key (elements q)) \<longrightarrow> q' = q)"
proof -
  from assms have c: "consistent q" by (rule reachable_consistent)
  let ?q' = "q\<lparr>m_list := filter (\<lambda>n. key (snd n) \<noteq> k) (m_list q), m_map := (m_map q)(k := None)\<rparr>"
  have 1: "remove k q = Inr ?q'"
    by (simp add: remove_def unsafeRemove_consistent[OF c])
  have 2: "k \<notin> set (map key (elements ?q'))"
    by (auto simp: elements_def)
  have 3: "?q' = q" if "k \<notin> set (map key (elements q))"
  proof -
    from that c have "k \<notin> dom (m_map q)" by (simp add: consistent_def)
    then have "m_map q k = None" by (simp add: domIff)
    with 1 show ?thesis by (simp add: remove_def unsafeRemove_def)
  qed
  show ?thesis
    by (rule exI[of _ ?q']) (use 1 2 3 in simp)
qed

theorem remove_frame_witness:
  "run [ReQueue 0 ''A'' ''x'', ReQueue 1000000000 ''B'' ''y''] (TimedQueue 2) = Inr ([], queue_AB) \<and>
   remove ''A'' queue_AB = Inr queue_B \<and>
   m_list queue_B = filter (\<lambda>n. key (snd n) \<noteq> ''A'') (m_list queue_AB) \<and>
   m_map queue_B = (m_map queue_AB)(''A'' := None) \<and>
   ''A'' \<notin> set (map key (elements queue_B)) \<and>
   ''C'' \<notin> set (map key (elements queue_AB)) \<and>
   remove ''C'' queue_AB = Inr queue_AB"
proof -
  have r: "run [ReQueue 0 ''A'' ''x'', ReQueue 1000000000 ''B'' ''y''] (TimedQueue 2)
             = Inr ([], queue_AB)"
    by (rule run_queue_AB)
  have absent: "''C'' \<notin> set (map key (elements queue_AB))"
    by (simp add: elements_def queue_AB_def)
  from remove_frame[OF r, of "''A''"] remove_queue_AB
  have "m_list queue_B = filter (\<lambda>n. key (snd n) \<noteq> ''A'') (m_list queue_AB) \<and>
        m_map queue_B = (m_map queue_AB)(''A'' := None) \<and>
        ''A'' \<notin> set (map key (elements queue_B))"
    by auto
  moreover from remove_frame[OF r, of "''C''"] absent
  have "remove ''C'' queue_AB = Inr queue_AB" by auto
  ultimately show ?thesis using r remove_queue_AB absent by blast
qed

subsection \<open>The consumer's call\<close>

lemma waitNonEmpty_nonempty:
  "m_list q \<noteq> [] \<Longrightarrow> waitNonEmpty ws q = Some (Inr (True, q))"
  by (cases ws) simp_all

lemma waitNonEmpty_shutdown:
  "m_list q = [] \<Longrightarrow> m_break q \<Longrightarrow> waitNonEmpty ws q = Some (Inr (False, q))"
  by (cases ws) simp_all

lemma waitNonEmpty_result:
  "waitNonEmpty ws q = Some (Inr (b, q')) \<Longrightarrow>
     (b \<longrightarrow> m_list q' \<noteq> []) \<and> (\<not> b \<longrightarrow> m_list q' = [] \<and> m_break q')"
proof (induction ws arbitrary: q)
  case Nil
  then show ?case by (auto split: if_splits)
next
  case (Cons evs ws)
  show ?case
  proof (cases "m_list q = [] \<and> \<not> m_break q")
    case True
    with Cons.prems obtain o1 q1 where "waitNonEmpty ws q1 = Some (Inr (b, q'))"
      by (auto split: sum.splits)
    then show ?thesis by (rule Cons.IH)
  next
    case False
    with Cons.prems show ?thesis by (auto split: if_splits)
  qed
qed

lemma expireLoop_result:
  "expireLoop f rs w slept q = Some (Inr (w', slept', q')) \<Longrightarrow> \<exists>k i. w' = f k i w"
proof (induction rs arbitrary: q slept)
  case Nil
  then show ?case by simp
next
  case (Cons r rs)
  obtain evs now where r: "r = (evs, now)" by (cases r)
  from Cons.prems r obtain o1 q1 get e q2 where
    1: "run evs q = Inr (o1, q1)" and 2: "checkExpired now q1 = Inr (get, e, q2)"
    by (auto split: sum.splits)
  show ?case
  proof (cases get)
    case True
    with Cons.prems r 1 2 show ?thesis by auto
  next
    case False
    with Cons.prems r 1 2
    have "expireLoop f rs w (slept @ [time e - now]) q2 = Some (Inr (w', slept', q'))"
      by simp
    then show ?thesis by (rule Cons.IH)
  qed
qed

lemma waitUntilExpired_shutdown:
  assumes "m_list q = []" and "m_break q"
  shows "waitUntilExpired f ws rs w q = Some (Inr (w, [], q))"
  using assms by (simp add: waitUntilExpired_def waitNonEmpty_shutdown)

lemma waitUntilExpired_returned:
  assumes "waitUntilExpired f ws rs w q = Some (Inr (w', slept, q'))"
  shows "(waitNonEmpty ws q = Some (Inr (False, q')) \<and> w' = w \<and> slept = [] \<and>
            m_list q' = [] \<and> m_break q') \<or>
         ((\<exists>q1. waitNonEmpty ws q = Some (Inr (True, q1))) \<and> (\<exists>k i. w' = f k i w))"
proof -
  from assms obtain b q1 where g: "waitNonEmpty ws q = Some (Inr (b, q1))"
    by (auto simp: waitUntilExpired_def split: option.splits sum.splits)
  show ?thesis
  proof (cases b)
    case True
    with assms g have "expireLoop f rs w [] q1 = Some (Inr (w', slept, q'))"
      by (simp add: waitUntilExpired_def)
    then have "\<exists>k i. w' = f k i w" by (rule expireLoop_result)
    with True g show ?thesis by auto
  next
    case False
    with assms g have "w' = w" "slept = []" "q' = q1"
      by (simp_all add: waitUntilExpired_def)
    with False g waitNonEmpty_result[OF g] show ?thesis by simp
  qed
qed

lemma step_break: "m_break q \<Longrightarrow> step ev q = Inr (out, q') \<Longrightarrow> m_break q'"
  by (cases ev)
     (auto simp: step_def reQueue_def remove_def unsafeRemove_def notify_def checkExpired_def
                 Let_def
           split: sum.splits option.splits if_splits)

lemma run_break: "m_break q \<Longrightarrow> run evs q = Inr (out, q') \<Longrightarrow> m_break q'"
proof (induction evs arbitrary: q out)
  case Nil
  then show ?case by simp
next
  case (Cons ev evs)
  from Cons.prems(2) obtain o1 q1 o2 where
    s: "step ev q = Inr (o1, q1)" and r: "run evs q1 = Inr (o2, q')"
    by (auto split: sum.splits)
  from Cons.prems(1) s have "m_break q1" by (rule step_break)
  then show ?case using r by (rule Cons.IH)
qed

lemma checkExpired_break: "m_break q \<Longrightarrow> checkExpired now q = Inr (get, e, q') \<Longrightarrow> m_break q'"
  by (auto simp: checkExpired_def Let_def split: if_splits)

lemma waitNonEmpty_break:
  "m_break q \<Longrightarrow> waitNonEmpty ws q = Some (Inr (b, q')) \<Longrightarrow> q' = q"
  by (cases ws) (auto split: if_splits)

lemma expireLoop_break:
  "m_break q \<Longrightarrow> expireLoop f rs w slept q = Some (Inr (w', slept', q')) \<Longrightarrow> m_break q'"
proof (induction rs arbitrary: q slept)
  case Nil
  then show ?case by simp
next
  case (Cons r rs)
  obtain evs now where r: "r = (evs, now)" by (cases r)
  from Cons.prems(2) r obtain o1 q1 get e q2 where
    1: "run evs q = Inr (o1, q1)" and 2: "checkExpired now q1 = Inr (get, e, q2)"
    by (auto split: sum.splits)
  from Cons.prems(1) 1 have "m_break q1" by (rule run_break)
  then have b2: "m_break q2" using 2 by (rule checkExpired_break)
  show ?case
  proof (cases get)
    case True
    with Cons.prems(2) r 1 2 have "q' = q2" by simp
    with b2 show ?thesis by simp
  next
    case False
    with Cons.prems(2) r 1 2
    have "expireLoop f rs w (slept @ [time e - now]) q2 = Some (Inr (w', slept', q'))"
      by simp
    with b2 show ?thesis by (rule Cons.IH)
  qed
qed

lemma waitUntilExpired_break:
  assumes "m_break q" and "waitUntilExpired f ws rs w q = Some (Inr (w', slept, q'))"
  shows "m_break q'"
proof -
  from assms(2) obtain b q1 where g: "waitNonEmpty ws q = Some (Inr (b, q1))"
    by (auto simp: waitUntilExpired_def split: option.splits sum.splits)
  with assms(1) have q1: "q1 = q" by (rule waitNonEmpty_break)
  show ?thesis
  proof (cases b)
    case True
    with assms(2) g q1 have "expireLoop f rs w [] q = Some (Inr (w', slept, q'))"
      by (simp add: waitUntilExpired_def)
    with assms(1) show ?thesis by (rule expireLoop_break)
  next
    case False
    with assms g q1 show ?thesis by (simp add: waitUntilExpired_def)
  qed
qed

lemmas eval_consumer = waitUntilExpired_def log_callback_def silent_callback_def caller_state_def

lemma wait_after_notify:
  "waitUntilExpired log_callback [[Notify]] [] [] (TimedQueue 2 :: (string, string) timed_queue) =
     Some (Inr ([], [], notify (TimedQueue 2)))"
  by (simp add: eval_defs eval_consumer)

lemma run_after_notify:
  "run [ReQueue 3000000000 ''C'' ''u'', Expire 2500000000, Remove ''C''] (notify queue_A) =
     Inr ([\<lparr>key = ''A'', time = 2000000000, info = ''x''\<rparr>], notify (TimedQueue 2))"
  by (simp add: eval_defs)

lemma wait_queue_AB:
  "waitUntilExpired log_callback [] [([], 2500000000)] [] queue_AB =
     Some (Inr ([(''A'', ''x'')], [], queue_B))"
  by (simp add: eval_defs eval_consumer)

text \<open>
  The scenario of a refreshed key: the consumer waits on the empty queue, \<open>A\<close> is
  queued with payload \<open>x\<close> at tick 0 and again with payload \<open>y\<close> one second later.
  The consumer, whose first reading is tick 0, sleeps until the expiration of the second
  element and receives \<open>(A, y)\<close> only.
\<close>

lemma refresh_scenario:
  "waitUntilExpired log_callback [[ReQueue 0 ''A'' ''x'']]
       [([ReQueue 1000000000 ''A'' ''y''], 0), ([], 3000000000), ([], 3000000001)] []
       (TimedQueue 2) =
     Some (Inr ([(''A'', ''y'')], [3000000000, 0],
                \<lparr>m_map = Map.empty, m_list = [], m_delay = 2, m_break = False\<rparr>))"
  by (simp add: eval_defs eval_consumer)

text \<open>
  Between the two loops, and during a sleep, the mutex is free. When another thread
  removes the only element then, the consumer's next pass calls \<^verbatim>\<open>back()\<close> on an empty
  list.
\<close>

lemma back_of_emptied_list:
  "waitUntilExpired log_callback [] [([Remove ''A''], 2500000000)] [] queue_A =
     Some (Inl BackOfEmptyList)"
  by (simp add: eval_defs eval_consumer)

text \<open>
  C2, as the claim states it, fails at the instant of expiration. With the element of
  \<open>A\<close> expiring at tick 2000000000 and the clock reading 2000000000, the test
  \<^verbatim>\<open>now > element->time\<close> of line 92 is false: nothing is removed, the callback is not
  invoked in that pass, and the call sleeps for zero ticks; the element is delivered
  at the next reading that is strictly later.
\<close>

theorem expired_at_deadline_counterexample:
  "run [ReQueue 0 ''A'' ''x''] (TimedQueue 2) = Inr ([], queue_A) \<and>
   m_list queue_A = [(1, \<lparr>key = ''A'', time = 2000000000, info = ''x''\<rparr>)] \<and>
   time (snd (last (m_list queue_A))) \<le> 2000000000 \<and>
   checkExpired 2000000000 queue_A =
     Inr (False, \<lparr>key = ''A'', time = 2000000000, info = ''x''\<rparr>, queue_A) \<and>
   waitUntilExpired log_callback [] [([], 2000000000)] [] queue_A = None \<and>
   waitUntilExpired log_callback [] [([], 2000000000), ([], 2000000001)] [] queue_A
     = Some (Inr ([(''A'', ''x'')], [0], TimedQueue 2))"
  by (simp add: eval_defs eval_consumer)

text \<open>
  C2, amended. In a reached state whose list is not empty, with \<open>e\<close> the element at the
  back: if the clock reading is strictly later than the expiration of \<open>e\<close>, the pass
  takes \<open>e\<close> out of the list and its key out of the index, the key is then in no
  element of the list, and the call returns after one application of the callback to
  the key and payload of \<open>e\<close>. Otherwise (the reading is at or before the expiration)
  the pass changes nothing, the call sleeps for exactly the expiration minus the
  reading and goes through the loop again, where a strictly later reading delivers
  \<open>e\<close>.
\<close>

theorem checkExpired_oldest:
  assumes "run evs (TimedQueue d) = Inr (out, q)" and "m_list q = l @ [(it, e)]"
  shows "(time e < now \<longrightarrow>
            checkExpired now q =
              Inr (True, e, q\<lparr>m_list := l, m_map := (m_map q)(key e := None)\<rparr>) \<and>
            key e \<notin> set (map key (map snd l)) \<and>
            waitUntilExpired f ws (([], now) # rs) w q =
              Some (Inr (f (key e) (info e) w, [],
                         q\<lparr>m_list := l, m_map := (m_map q)(key e := None)\<rparr>))) \<and>
         (now \<le> time e \<longrightarrow>
            checkExpired now q = Inr (False, e, q) \<and>
            waitUntilExpired f ws (([], now) # rs) w q = expireLoop f rs w [time e - now] q \<and>
            (time e < now' \<longrightarrow>
               waitUntilExpired f ws [([], now), ([], now')] w q =
                 Some (Inr (f (key e) (info e) w, [time e - now],
                            q\<lparr>m_list := l, m_map := (m_map q)(key e := None)\<rparr>))))"
proof -
  from assms(1) have "consistent q" by (rule reachable_consistent)
  with assms(2) have k: "key e \<notin> set (map key (map snd l))"
    by (simp add: consistent_def elements_def)
  from assms(2) have ne: "m_list q \<noteq> []" by simp
  then have g: "waitNonEmpty ws q = Some (Inr (True, q))" by (rule waitNonEmpty_nonempty)
  have c: "checkExpired t q =
             (if time e < t
              then Inr (True, e, q\<lparr>m_list := l, m_map := (m_map q)(key e := None)\<rparr>)
              else Inr (False, e, q))" for t
    using assms(2) by (simp add: checkExpired_def)
  show ?thesis using k g c by (simp add: waitUntilExpired_def)
qed

theorem checkExpired_oldest_witness:
  "run [ReQueue 0 ''A'' ''x'', ReQueue 1000000000 ''B'' ''y''] (TimedQueue 2) = Inr ([], queue_AB) \<and>
   m_list queue_AB = [(2, \<lparr>key = ''B'', time = 3000000000, info = ''y''\<rparr>)]
                       @ [(1, \<lparr>key = ''A'', time = 2000000000, info = ''x''\<rparr>)] \<and>
   checkExpired 2000000001 queue_AB =
     Inr (True, \<lparr>key = ''A'', time = 2000000000, info = ''x''\<rparr>, queue_B) \<and>
   waitUntilExpired log_callback [] [([], 2000000001)] [] queue_AB =
     Some (Inr ([(''A'', ''x'')], [], queue_B)) \<and>
   checkExpired 1500000000 queue_AB =
     Inr (False, \<lparr>key = ''A'', time = 2000000000, info = ''x''\<rparr>, queue_AB) \<and>
   waitUntilExpired log_callback [] [([], 1500000000), ([], 2000000001)] [] queue_AB =
     Some (Inr ([(''A'', ''x'')], [500000000], queue_B))"
proof -
  have r: "run [ReQueue 0 ''A'' ''x'', ReQueue 1000000000 ''B'' ''y''] (TimedQueue 2)
             = Inr ([], queue_AB)"
    by (rule run_queue_AB)
  have l: "m_list queue_AB = [(2, \<lparr>key = ''B'', time = 3000000000, info = ''y''\<rparr>)]
                       @ [(1, \<lparr>key = ''A'', time = 2000000000, info = ''x''\<rparr>)]"
    by (simp add: queue_AB_def)
  have b: "queue_AB\<lparr>m_list := [(2, \<lparr>key = ''B'', time = 3000000000, info = ''y''\<rparr>)],
                    m_map := (m_map queue_AB)(''A'' := None)\<rparr> = queue_B"
    by (simp add: queue_B_def)
  from checkExpired_oldest[OF r l, of 2000000001 log_callback "[]" "[]" "[]"]
  have 1: "checkExpired 2000000001 queue_AB =
             Inr (True, \<lparr>key = ''A'', time = 2000000000, info = ''x''\<rparr>, queue_B)"
    and 2: "waitUntilExpired log_callback [] [([], 2000000001)] [] queue_AB =
             Some (Inr ([(''A'', ''x'')], [], queue_B))"
    by (simp_all add: b log_callback_def)
  from checkExpired_oldest[OF r l, of 1500000000 log_callback "[]" "[]" "[]" 2000000001]
  have 3: "checkExpired 1500000000 queue_AB =
             Inr (False, \<lparr>key = ''A'', time = 2000000000, info = ''x''\<rparr>, queue_AB)"
    and 4: "waitUntilExpired log_callback [] [([], 1500000000), ([], 2000000001)] [] queue_AB =
             Some (Inr ([(''A'', ''x'')], [500000000], queue_B))"
    by (simp_all add: b log_callback_def)
  from r l 1 2 3 4 show ?thesis by blast
qed

subsection \<open>Shutdown\<close>

lemma log_callback_extends: "log_callback k i l \<noteq> l"
  by (simp add: log_callback_def)

text \<open>
  C5. With the shutdown flag set and the list empty, a call of \<^verbatim>\<open>waitUntilExpired\<close>
  returns at once, whatever the schedule: the callback is not applied, nothing is slept
  and the queue is as it was. It is the only return without the callback: a call whose
  logging callback has logged nothing returned from the first loop (line 81), with the
  list empty and the flag set.
\<close>

theorem shutdown_return_on_empty:
  "(m_break q \<and> m_list q = [] \<longrightarrow> waitUntilExpired f ws rs w q = Some (Inr (w, [], q))) \<and>
   (waitUntilExpired log_callback vs ts l p = Some (Inr (l', slept, p')) \<and> l' = l \<longrightarrow>
      waitNonEmpty vs p = Some (Inr (False, p')) \<and> m_list p' = [] \<and> m_break p' \<and> slept = [])"
proof -
  have 1: "waitUntilExpired f ws rs w q = Some (Inr (w, [], q))"
    if "m_break q \<and> m_list q = []"
    using that by (simp add: waitUntilExpired_shutdown)
  have 2: "waitNonEmpty vs p = Some (Inr (False, p')) \<and> m_list p' = [] \<and> m_break p' \<and> slept = []"
    if a: "waitUntilExpired log_callback vs ts l p = Some (Inr (l', slept, p')) \<and> l' = l"
  proof -
    from a have "\<not> (\<exists>k i. l' = log_callback k i l)" by (simp add: log_callback_def)
    with a waitUntilExpired_returned[of log_callback vs ts l p l' slept p']
    show ?thesis by blast
  qed
  from 1 2 show ?thesis by blast
qed

theorem shutdown_return_on_empty_witness:
  "m_break (notify (TimedQueue 2 :: (string, string) timed_queue)) \<and>
   m_list (notify (TimedQueue 2 :: (string, string) timed_queue)) = [] \<and>
   waitUntilExpired log_callback [] [] []
       (notify (TimedQueue 2 :: (string, string) timed_queue)) =
     Some (Inr ([], [], notify (TimedQueue 2))) \<and>
   waitUntilExpired log_callback [[Notify]] [] [] (TimedQueue 2 :: (string, string) timed_queue) =
     Some (Inr ([], [], notify (TimedQueue 2))) \<and>
   waitNonEmpty [[Notify]] (TimedQueue 2 :: (string, string) timed_queue) =
     Some (Inr (False, notify (TimedQueue 2)))"
proof -
  let ?n = "notify (TimedQueue 2 :: (string, string) timed_queue)"
  have h: "m_break ?n \<and> m_list ?n = []" by (simp add: notify_def TimedQueue_def)
  note t = shutdown_return_on_empty
    [where q = ?n and f = log_callback and ws = "[]" and rs = "[]" and w = "[]"
       and vs = "[[Notify]]" and ts = "[]" and l = "[]" and l' = "[]" and slept = "[]"
       and p = "TimedQueue 2" and p' = ?n]
  from t h have 1: "waitUntilExpired log_callback [] [] [] ?n = Some (Inr ([], [], ?n))"
    by blast
  from t wait_after_notify
  have 2: "waitNonEmpty [[Notify]] (TimedQueue 2 :: (string, string) timed_queue)
             = Some (Inr (False, ?n))"
    by blast
  from h 1 2 wait_after_notify show ?thesis by blast
qed

text \<open>
  C10. No critical section clears the shutdown flag: after \<^verbatim>\<open>notify\<close>, the flag is set
  in every state an execution reaches and after every call of \<^verbatim>\<open>waitUntilExpired\<close>
  that returns, and a call of \<^verbatim>\<open>waitUntilExpired\<close> on an empty list returns at once
  without the callback.
\<close>

theorem shutdown_irreversible:
  assumes "run evs (notify q) = Inr (out, q')"
  shows "m_break q' \<and>
         (m_list q' = [] \<longrightarrow> waitUntilExpired f ws rs w q' = Some (Inr (w, [], q'))) \<and>
         (waitUntilExpired f ws rs w q' = Some (Inr (w', slept, q'')) \<longrightarrow> m_break q'')"
proof -
  have "m_break (notify q)" by (simp add: notify_def)
  then have b: "m_break q'" using assms by (rule run_break)
  then show ?thesis
    using waitUntilExpired_shutdown[of q' f ws rs w] waitUntilExpired_break[of q' f ws rs w w' slept q'']
    by blast
qed

theorem shutdown_irreversible_witness:
  "run [ReQueue 3000000000 ''C'' ''u'', Expire 2500000000, Remove ''C''] (notify queue_A) =
     Inr ([\<lparr>key = ''A'', time = 2000000000, info = ''x''\<rparr>], notify (TimedQueue 2)) \<and>
   m_break (notify (TimedQueue 2 :: (string, string) timed_queue)) \<and>
   m_list (notify (TimedQueue 2 :: (string, string) timed_queue)) = [] \<and>
   waitUntilExpired log_callback [] [] []
       (notify (TimedQueue 2 :: (string, string) timed_queue)) =
     Some (Inr ([], [], notify (TimedQueue 2)))"
proof -
  let ?n = "notify (TimedQueue 2 :: (string, string) timed_queue)"
  have e: "m_list ?n = []" by (simp add: notify_def TimedQueue_def)
  from shutdown_irreversible[OF run_after_notify, of log_callback "[]" "[]" "[]"] e
  have "m_break ?n \<and> waitUntilExpired log_callback [] [] [] ?n = Some (Inr ([], [], ?n))"
    by blast
  with run_after_notify e show ?thesis by blast
qed

text \<open>
  C6, as the claim states it, fails: \<^verbatim>\<open>waitUntilExpired\<close> returns \<^verbatim>\<open>void\<close>. A call that
  returns on shutdown and a call that delivers \<open>A\<close> leave a caller whose callback
  records nothing with the same state; the logging callback shows that the second call
  did invoke the callback.
\<close>

theorem void_result_counterexample:
  "caller_state (waitUntilExpired silent_callback [] [] 0
                   (notify (TimedQueue 2 :: (string, string) timed_queue))) = Some (Inr 0) \<and>
   caller_state (waitUntilExpired silent_callback [] [([], 2500000000)] 0 queue_A)
     = Some (Inr 0) \<and>
   caller_state (waitUntilExpired log_callback [] [] []
                   (notify (TimedQueue 2 :: (string, string) timed_queue))) = Some (Inr []) \<and>
   caller_state (waitUntilExpired log_callback [] [([], 2500000000)] [] queue_A)
     = Some (Inr [(''A'', ''x'')])"
  by (simp add: eval_defs eval_consumer)

text \<open>
  C6, amended. A call that returns has either left the first loop at line 81, and then
  the caller's state is untouched, or gone on to the second loop, and then the caller's
  state is the callback applied once to it: the two outcomes are told apart through the
  callback only.
\<close>

theorem outcome_seen_through_callback:
  assumes "waitUntilExpired f ws rs w q = Some (Inr (w', slept, q'))"
  shows "(waitNonEmpty ws q = Some (Inr (False, q')) \<and> w' = w) \<or>
         ((\<exists>q1. waitNonEmpty ws q = Some (Inr (True, q1))) \<and> (\<exists>k i. w' = f k i w))"
  using waitUntilExpired_returned[OF assms] by blast

theorem outcome_seen_through_callback_witness:
  "waitUntilExpired log_callback [] [([], 2500000000)] [] queue_AB =
     Some (Inr ([(''A'', ''x'')], [], queue_B)) \<and>
   (\<exists>k i. [(''A'', ''x'')] = log_callback k i []) \<and>
   waitUntilExpired log_callback [[Notify]] [] [] (TimedQueue 2 :: (string, string) timed_queue) =
     Some (Inr ([], [], notify (TimedQueue 2))) \<and>
   waitNonEmpty [[Notify]] (TimedQueue 2 :: (string, string) timed_queue) =
     Some (Inr (False, notify (TimedQueue 2)))"
proof -
  have ne: "[(''A'', ''x'')] \<noteq> ([] :: (string \<times> string) list)" by simp
  from outcome_seen_through_callback[OF wait_queue_AB] ne
  have 1: "\<exists>k i. [(''A'', ''x'')] = log_callback k i []"
    by blast
  from outcome_seen_through_callback[OF wait_after_notify]
  have 2: "waitNonEmpty [[Notify]] (TimedQueue 2 :: (string, string) timed_queue) =
          Some (Inr (False, notify (TimedQueue 2)))"
    by (auto simp: log_callback_def)
  from wait_queue_AB 1 2 wait_after_notify show ?thesis by blast
qed

subsection \<open>Order of delivery\<close>

lemma inserted_append: "inserted d (xs @ ys) = inserted d xs @ inserted d ys"
  by (induction d xs rule: inserted.induct) simp_all

lemma readings_append: "readings (xs @ ys) = readings xs @ readings ys"
  by (induction xs rule: readings.induct) simp_all

lemma time_inserted: "map time (inserted d evs) = map (\<lambda>r. r + d * ticks_per_second) (readings evs)"
  by (induction d evs rule: inserted.induct) simp_all

lemma sorted_inserted: "sorted (readings evs) \<Longrightarrow> sorted (map time (inserted d evs))"
  unfolding time_inserted by (rule sorted_map_mono) (simp_all add: mono_on_def)

lemma subseq_sorted: "subseq xs ys \<Longrightarrow> sorted ys \<Longrightarrow> sorted (xs :: int list)"
proof (induction rule: list_emb.induct)
  case (list_emb_Nil ys)
  then show ?case by simp
next
  case (list_emb_Cons xs ys y)
  then show ?case by simp
next
  case (list_emb_Cons2 x y xs ys)
  then have "set xs \<subseteq> set ys" by (auto dest: set_mono_prefix list_emb_set)
  with list_emb_Cons2 show ?case by auto
qed

lemma unsafeRemove_list:
  "unsafeRemove k q = Inr q1 \<Longrightarrow> \<exists>P. m_list q1 = filter P (m_list q) \<and> m_delay q1 = m_delay q"
proof (cases "m_map q k")
  case None
  assume "unsafeRemove k q = Inr q1"
  with None have "m_list q1 = filter (\<lambda>n. True) (m_list q) \<and> m_delay q1 = m_delay q"
    by (simp add: unsafeRemove_def)
  then show ?thesis by blast
next
  case (Some it)
  assume "unsafeRemove k q = Inr q1"
  with Some have "m_list q1 = filter (\<lambda>n. fst n \<noteq> it) (m_list q) \<and> m_delay q1 = m_delay q"
    by (auto simp: unsafeRemove_def erase_def split: if_splits)
  then show ?thesis by blast
qed

lemma step_elements:
  assumes "step ev q = Inr (out, q')"
  shows "\<exists>P. out @ rev (elements q') =
              map snd (filter P (rev (m_list q))) @ inserted (m_delay q) [ev]"
proof (cases ev)
  case (ReQueue now k i)
  with assms obtain q1 where
    1: "unsafeRemove k q = Inr q1" and 2: "reQueue now k i q = Inr q'" and o: "out = []"
    by (auto simp: step_def reQueue_def split: sum.splits)
  from 1 obtain P where P: "m_list q1 = filter P (m_list q)" "m_delay q1 = m_delay q"
    by (blast dest: unsafeRemove_list)
  from 1 2 P have "elements q' =
      \<lparr>key = k, time = now + m_delay q * ticks_per_second, info = i\<rparr> # map snd (filter P (m_list q))"
    by (auto simp: reQueue_def Let_def elements_def)
  with o ReQueue have "out @ rev (elements q') =
      map snd (filter P (rev (m_list q))) @ inserted (m_delay q) [ev]"
    by (simp add: rev_map rev_filter)
  then show ?thesis by blast
next
  case (Remove k)
  with assms have 1: "unsafeRemove k q = Inr q'" and o: "out = []"
    by (auto simp: step_def remove_def split: sum.splits)
  from 1 obtain P where "m_list q' = filter P (m_list q)"
    by (blast dest: unsafeRemove_list)
  with o Remove have "out @ rev (elements q') =
      map snd (filter P (rev (m_list q))) @ inserted (m_delay q) [ev]"
    by (simp add: rev_map rev_filter elements_def)
  then show ?thesis by blast
next
  case Notify
  with assms have "out @ rev (elements q') =
      map snd (filter (\<lambda>n. True) (rev (m_list q))) @ inserted (m_delay q) [ev]"
    by (auto simp: step_def notify_def elements_def rev_map)
  then show ?thesis by blast
next
  case (Expire now)
  with assms have ne: "m_list q \<noteq> []"
    by (auto simp: step_def checkExpired_def split: sum.splits if_splits)
  then obtain l n where l: "m_list q = l @ [n]"
    by (metis append_butlast_last_id)
  from assms Expire l have "out @ rev (elements q') =
      map snd (filter (\<lambda>n. True) (rev (m_list q))) @ inserted (m_delay q) [ev]"
    by (auto simp: step_def checkExpired_def Let_def elements_def rev_map
             split: sum.splits if_splits)
  then show ?thesis by blast
qed

lemma run_snoc:
  assumes "run (evs @ [ev]) q = Inr (out, q')"
  shows "\<exists>o1 q1 o2. run evs q = Inr (o1, q1) \<and> step ev q1 = Inr (o2, q') \<and> out = o1 @ o2"
  using assms by (auto simp: run_append split: sum.splits)

lemma run_in_insertion_order:
  "run evs q0 = Inr (out, q) \<Longrightarrow>
   subseq (out @ rev (elements q)) (rev (elements q0) @ inserted (m_delay q0) evs)"
proof (induction evs arbitrary: out q rule: rev_induct)
  case Nil
  then show ?case by simp
next
  case (snoc ev evs)
  from snoc.prems obtain o1 q1 o2 where
    r: "run evs q0 = Inr (o1, q1)" and s: "step ev q1 = Inr (o2, q)" and o: "out = o1 @ o2"
    by (blast dest: run_snoc)
  from r have d: "m_delay q1 = m_delay q0" by (rule run_delay)
  from s obtain P where
    P: "o2 @ rev (elements q) = map snd (filter P (rev (m_list q1))) @ inserted (m_delay q1) [ev]"
    by (blast dest: step_elements)
  have "subseq (map snd (filter P (rev (m_list q1)))) (rev (elements q1))"
    by (simp add: elements_def rev_map subseq_map)
  then have "subseq (o1 @ map snd (filter P (rev (m_list q1)))) (o1 @ rev (elements q1))"
    by (simp add: subseq_append')
  also from r have "subseq (o1 @ rev (elements q1)) (rev (elements q0) @ inserted (m_delay q0) evs)"
    by (rule snoc.IH)
  finally have "subseq ((o1 @ map snd (filter P (rev (m_list q1)))) @ inserted (m_delay q0) [ev])
                  ((rev (elements q0) @ inserted (m_delay q0) evs) @ inserted (m_delay q0) [ev])"
    by (rule list_emb_append_mono) simp
  with o P d show ?case by (simp add: inserted_append)
qed

lemma reachable_in_insertion_order:
  assumes "run evs (TimedQueue d) = Inr (out, q)"
  shows "subseq (out @ rev (elements q)) (inserted d evs)"
  using run_in_insertion_order[OF assms] by (simp add: TimedQueue_def elements_def)

lemma waitNonEmpty_run:
  "waitNonEmpty ws q = Some (Inr (b, q1)) \<Longrightarrow> \<exists>tr out. run tr q = Inr (out, q1)"
proof (induction ws arbitrary: q)
  case Nil
  then have "q1 = q" by (auto split: if_splits)
  then have "run [] q = Inr ([], q1)" by simp
  then show ?case by blast
next
  case (Cons evs ws)
  show ?case
  proof (cases "m_list q = [] \<and> \<not> m_break q")
    case True
    with Cons.prems obtain o1 q2 where
      r: "run evs q = Inr (o1, q2)" and w: "waitNonEmpty ws q2 = Some (Inr (b, q1))"
      by (auto split: sum.splits)
    from Cons.IH[OF w] obtain tr o2 where "run tr q2 = Inr (o2, q1)" by blast
    with r have "run (evs @ tr) q = Inr (o1 @ o2, q1)" by (simp add: run_append)
    then show ?thesis by blast
  next
    case False
    with Cons.prems have "q1 = q" by (auto split: if_splits)
    then have "run [] q = Inr ([], q1)" by simp
    then show ?thesis by blast
  qed
qed

lemma checkExpired_kept: "checkExpired now q = Inr (False, e, q') \<Longrightarrow> q' = q"
  by (auto simp: checkExpired_def Let_def split: if_splits)

lemma checkExpired_delivers:
  assumes "checkExpired now q = Inr (True, e, q')"
  shows "elements q = elements q' @ [e]" and "step (Expire now) q = Inr ([e], q')"
proof -
  from assms have ne: "m_list q \<noteq> []"
    by (auto simp: checkExpired_def split: if_splits)
  then obtain l n where l: "m_list q = l @ [n]" by (metis append_butlast_last_id)
  with assms show "elements q = elements q' @ [e]"
    by (auto simp: checkExpired_def elements_def Let_def split: if_splits)
  from assms show "step (Expire now) q = Inr ([e], q')"
    by (simp add: step_def)
qed

lemma expireLoop_run:
  "expireLoop f rs w slept q = Some (Inr (w', slept', q')) \<Longrightarrow>
   \<exists>tr out p now (e :: ('k, 'i) Element).
      run tr q = Inr (out, p) \<and> checkExpired now p = Inr (True, e, q') \<and>
      w' = f (key e) (info e) w"
proof (induction rs arbitrary: q slept)
  case Nil
  then show ?case by simp
next
  case (Cons r rs)
  obtain evs now where r: "r = (evs, now)" by (cases r)
  from Cons.prems r obtain o1 q1 get e q2 where
    1: "run evs q = Inr (o1, q1)" and 2: "checkExpired now q1 = Inr (get, e, q2)"
    by (auto split: sum.splits)
  show ?case
  proof (cases get)
    case True
    with Cons.prems r 1 2 have "q2 = q'" "w' = f (key e) (info e) w" by simp_all
    with 1 2 True have "run evs q = Inr (o1, q1) \<and> checkExpired now q1 = Inr (True, e, q') \<and>
                        w' = f (key e) (info e) w"
      by simp
    then show ?thesis by blast
  next
    case False
    with 2 have q2: "q2 = q1" by (simp add: checkExpired_kept)
    from False Cons.prems r 1 2
    have "expireLoop f rs w (slept @ [time e - now]) q2 = Some (Inr (w', slept', q'))"
      by simp
    from Cons.IH[OF this] q2 obtain tr o2 p t and e' :: "('k, 'i) Element" where
      "run tr q1 = Inr (o2, p)" "checkExpired t p = Inr (True, e', q')"
      "w' = f (key e') (info e') w"
      by blast
    with 1 have "run (evs @ tr) q = Inr (o1 @ o2, p) \<and> checkExpired t p = Inr (True, e', q') \<and>
                 w' = f (key e') (info e') w"
      by (simp add: run_append)
    then show ?thesis by blast
  qed
qed

lemma waitUntilExpired_run:
  assumes "waitUntilExpired f ws rs w q = Some (Inr (w', slept, q'))"
  shows "waitNonEmpty ws q = Some (Inr (False, q')) \<or>
         (\<exists>tr out p now (e :: ('k, 'i) Element).
            run tr q = Inr (out, p) \<and> checkExpired now p = Inr (True, e, q') \<and>
            w' = f (key e) (info e) w)"
proof -
  from assms obtain b q1 where g: "waitNonEmpty ws q = Some (Inr (b, q1))"
    by (auto simp: waitUntilExpired_def split: option.splits sum.splits)
  show ?thesis
  proof (cases b)
    case True
    with assms g have "expireLoop f rs w [] q1 = Some (Inr (w', slept, q'))"
      by (simp add: waitUntilExpired_def)
    from expireLoop_run[OF this] obtain tr o2 p t and e :: "('k, 'i) Element" where
      2: "run tr q1 = Inr (o2, p)" "checkExpired t p = Inr (True, e, q')"
         "w' = f (key e) (info e) w"
      by blast
    from waitNonEmpty_run[OF g] obtain tr0 o1 where "run tr0 q = Inr (o1, q1)" by blast
    with 2 have "run (tr0 @ tr) q = Inr (o1 @ o2, p) \<and> checkExpired t p = Inr (True, e, q') \<and>
                 w' = f (key e) (info e) w"
      by (simp add: run_append)
    then show ?thesis by blast
  next
    case False
    with assms g show ?thesis by (simp add: waitUntilExpired_def)
  qed
qed

lemma run_A_then_B:
  "run [ReQueue 0 ''A'' ''x'', ReQueue 1000000000 ''B'' ''y'', Expire 3500000000, Expire 3500000000]
       (TimedQueue 2) =
     Inr ([\<lparr>key = ''A'', time = 2000000000, info = ''x''\<rparr>,
           \<lparr>key = ''B'', time = 3000000000, info = ''y''\<rparr>], TimedQueue 2)"
  by (simp add: eval_defs)


text \<open>
  C3. Elements are handed to the callback in the order of their insertion. In every
  execution from a new queue, the elements delivered so far, followed by the elements
  still in the list from the back to the front, form a subsequence of the insertions in
  their order. A call of \<^verbatim>\<open>waitUntilExpired\<close> that returns otherwise than at line 81
  prolongs the execution to a state \<open>p\<close> whose back element \<open>e\<close> its pass removes, and
  applies the callback to the key and payload of \<open>e\<close>; the deliveries, with \<open>e\<close> last,
  and the remaining elements are again in insertion order.
\<close>

theorem delivered_in_insertion_order:
  assumes "run evs (TimedQueue d) = Inr (out, q)"
  shows "subseq (out @ rev (elements q)) (inserted d evs) \<and>
         (waitUntilExpired f ws rs w q = Some (Inr (w', slept, q')) \<longrightarrow>
            waitNonEmpty ws q = Some (Inr (False, q')) \<or>
            (\<exists>tr out' p now (e :: ('k, 'i) Element).
               run (evs @ tr) (TimedQueue d) = Inr (out @ out', p) \<and>
               checkExpired now p = Inr (True, e, q') \<and>
               elements p = elements q' @ [e] \<and>
               w' = f (key e) (info e) w \<and>
               subseq (out @ out' @ [e] @ rev (elements q')) (inserted d (evs @ tr))))"
proof (intro conjI impI)
  from assms show "subseq (out @ rev (elements q)) (inserted d evs)"
    by (rule reachable_in_insertion_order)
next
  assume "waitUntilExpired f ws rs w q = Some (Inr (w', slept, q'))"
  from waitUntilExpired_run[OF this]
  show "waitNonEmpty ws q = Some (Inr (False, q')) \<or>
        (\<exists>tr out' p now (e :: ('k, 'i) Element).
           run (evs @ tr) (TimedQueue d) = Inr (out @ out', p) \<and>
           checkExpired now p = Inr (True, e, q') \<and>
           elements p = elements q' @ [e] \<and>
           w' = f (key e) (info e) w \<and>
           subseq (out @ out' @ [e] @ rev (elements q')) (inserted d (evs @ tr)))"
  proof
    assume "waitNonEmpty ws q = Some (Inr (False, q'))"
    then show ?thesis by (rule disjI1)
  next
    assume "\<exists>tr out p now (e :: ('k, 'i) Element).
              run tr q = Inr (out, p) \<and> checkExpired now p = Inr (True, e, q') \<and>
              w' = f (key e) (info e) w"
    then obtain tr out' p now and e :: "('k, 'i) Element" where
      r: "run tr q = Inr (out', p)" and c: "checkExpired now p = Inr (True, e, q')"
      and w': "w' = f (key e) (info e) w"
      by blast
    from assms r have 1: "run (evs @ tr) (TimedQueue d) = Inr (out @ out', p)"
      by (simp add: run_append)
    from c have 2: "elements p = elements q' @ [e]" by (rule checkExpired_delivers)
    from 1 have "subseq ((out @ out') @ rev (elements p)) (inserted d (evs @ tr))"
      by (rule reachable_in_insertion_order)
    with 2 have 3: "subseq (out @ out' @ [e] @ rev (elements q')) (inserted d (evs @ tr))"
      by simp
    from 1 c 2 w' 3 show ?thesis by blast
  qed
qed

theorem delivered_in_insertion_order_witness:
  "run [ReQueue 0 ''A'' ''x'', ReQueue 1000000000 ''B'' ''y'', Expire 3500000000, Expire 3500000000]
       (TimedQueue 2) =
     Inr ([\<lparr>key = ''A'', time = 2000000000, info = ''x''\<rparr>,
           \<lparr>key = ''B'', time = 3000000000, info = ''y''\<rparr>], TimedQueue 2) \<and>
   subseq ([\<lparr>key = ''A'', time = 2000000000, info = ''x''\<rparr>,
            \<lparr>key = ''B'', time = 3000000000, info = ''y''\<rparr>]
             @ rev (elements (TimedQueue 2 :: (string, string) timed_queue)))
     (inserted 2 [ReQueue 0 ''A'' ''x'', ReQueue 1000000000 ''B'' ''y'', Expire 3500000000,
                  Expire 3500000000]) \<and>
   run [ReQueue 0 ''A'' ''x'', ReQueue 1000000000 ''B'' ''y''] (TimedQueue 2) = Inr ([], queue_AB) \<and>
   waitUntilExpired log_callback [] [([], 2500000000)] [] queue_AB =
     Some (Inr ([(''A'', ''x'')], [], queue_B)) \<and>
   (\<exists>tr out' p now (e :: (string, string) Element).
      run ([ReQueue 0 ''A'' ''x'', ReQueue 1000000000 ''B'' ''y''] @ tr) (TimedQueue 2)
        = Inr ([] @ out', p) \<and>
      checkExpired now p = Inr (True, e, queue_B) \<and>
      elements p = elements queue_B @ [e] \<and>
      [(''A'', ''x'')] = log_callback (key e) (info e) [] \<and>
      subseq ([] @ out' @ [e] @ rev (elements queue_B))
        (inserted 2 ([ReQueue 0 ''A'' ''x'', ReQueue 1000000000 ''B'' ''y''] @ tr)))"
proof -
  have g: "waitNonEmpty [] queue_AB \<noteq> Some (Inr (False, queue_B))"
    by (simp add: queue_AB_def)
  from delivered_in_insertion_order[OF run_A_then_B]
  have 1: "subseq ([\<lparr>key = ''A'', time = 2000000000, info = ''x''\<rparr>,
                    \<lparr>key = ''B'', time = 3000000000, info = ''y''\<rparr>]
                     @ rev (elements (TimedQueue 2 :: (string, string) timed_queue)))
             (inserted 2 [ReQueue 0 ''A'' ''x'', ReQueue 1000000000 ''B'' ''y'',
                          Expire 3500000000, Expire 3500000000])"
    by (rule conjunct1)
  from delivered_in_insertion_order[OF run_queue_AB, of log_callback "[]" "[([], 2500000000)]" "[]"
         "[(''A'', ''x'')]" "[]" queue_B]
       wait_queue_AB g
  have 2: "\<exists>tr out' p now (e :: (string, string) Element).
      run ([ReQueue 0 ''A'' ''x'', ReQueue 1000000000 ''B'' ''y''] @ tr) (TimedQueue 2)
        = Inr ([] @ out', p) \<and>
      checkExpired now p = Inr (True, e, queue_B) \<and>
      elements p = elements queue_B @ [e] \<and>
      [(''A'', ''x'')] = log_callback (key e) (info e) [] \<and>
      subseq ([] @ out' @ [e] @ rev (elements queue_B))
        (inserted 2 ([ReQueue 0 ''A'' ''x'', ReQueue 1000000000 ''B'' ''y''] @ tr))"
    by blast
  from run_A_then_B 1 run_queue_AB wait_queue_AB 2 show ?thesis by blast
qed

subsection \<open>Order of expiration\<close>

text \<open>
  C4. When the clock readings of the \<^verbatim>\<open>reQueue\<close> events of an execution never decrease,
  the list of every reached state is sorted by expiration, latest at the front and
  earliest at the back; the insertions in their order have non-decreasing expirations,
  and so have the delivered elements followed by the list from back to front.
  \<^verbatim>\<open>reQueue\<close> at a reading not before the earlier ones, \<^verbatim>\<open>remove\<close> and the pass of
  the consumer keep the list sorted.
\<close>

theorem sorted_by_expiration:
  assumes "run evs (TimedQueue d) = Inr (out, q)" and "sorted (readings evs)"
  shows "sorted (rev (map time (elements q))) \<and>
         sorted (map time (inserted d evs)) \<and>
         sorted (map time (out @ rev (elements q))) \<and>
         ((\<forall>r \<in> set (readings evs). r \<le> now) \<and> reQueue now k i q = Inr q1 \<longrightarrow>
            sorted (rev (map time (elements q1)))) \<and>
         (remove k q = Inr q2 \<longrightarrow> sorted (rev (map time (elements q2)))) \<and>
         (checkExpired t q = Inr (get, e, q3) \<longrightarrow> sorted (rev (map time (elements q3))))"
proof -
  have main: "sorted (map time (o' @ rev (elements p)))"
    if "run tr (TimedQueue d) = Inr (o', p)" and "sorted (readings tr)" for tr o' p
  proof -
    from that(1) have "subseq (o' @ rev (elements p)) (inserted d tr)"
      by (rule reachable_in_insertion_order)
    then have "subseq (map time (o' @ rev (elements p))) (map time (inserted d tr))"
      by (rule subseq_map)
    moreover from that(2) have "sorted (map time (inserted d tr))" by (rule sorted_inserted)
    ultimately show ?thesis by (rule subseq_sorted)
  qed
  have live: "sorted (rev (map time (elements p)))"
    if "run tr (TimedQueue d) = Inr (o', p)" and "sorted (readings tr)" for tr o' p
    using main[OF that] by (simp add: sorted_append rev_map)
  have 1: "sorted (rev (map time (elements q1)))"
    if "(\<forall>r \<in> set (readings evs). r \<le> now) \<and> reQueue now k i q = Inr q1"
  proof -
    from that assms(1) have "run (evs @ [ReQueue now k i]) (TimedQueue d) = Inr (out, q1)"
      by (simp add: run_append step_def)
    moreover from that assms(2) have "sorted (readings (evs @ [ReQueue now k i]))"
      by (simp add: readings_append sorted_append)
    ultimately show ?thesis by (rule live)
  qed
  have 2: "sorted (rev (map time (elements q2)))" if "remove k q = Inr q2"
  proof -
    from that assms(1) have "run (evs @ [Remove k]) (TimedQueue d) = Inr (out, q2)"
      by (simp add: run_append step_def)
    moreover from assms(2) have "sorted (readings (evs @ [Remove k]))"
      by (simp add: readings_append)
    ultimately show ?thesis by (rule live)
  qed
  have 3: "sorted (rev (map time (elements q3)))" if "checkExpired t q = Inr (get, e, q3)"
  proof -
    from that assms(1)
    have "run (evs @ [Expire t]) (TimedQueue d) = Inr (out @ (if get then [e] else []), q3)"
      by (simp add: run_append step_def)
    moreover from assms(2) have "sorted (readings (evs @ [Expire t]))"
      by (simp add: readings_append)
    ultimately show ?thesis by (rule live)
  qed
  from live[OF assms] sorted_inserted[OF assms(2), of d] main[OF assms] 1 2 3
  show ?thesis by blast
qed

theorem sorted_by_expiration_witness:
  "run [ReQueue 0 ''A'' ''x'', ReQueue 1000000000 ''B'' ''y''] (TimedQueue 2) = Inr ([], queue_AB) \<and>
   sorted (readings [ReQueue 0 ''A'' ''x'', ReQueue 1000000000 ''B'' ''y'']) \<and>
   readings [ReQueue 0 ''A'' ''x'', ReQueue 1000000000 ''B'' ''y''] = [0, 1000000000] \<and>
   (0 :: int) \<le> 1500000000 \<and> (1000000000 :: int) \<le> 1500000000 \<and>
   reQueue 1500000000 ''A'' ''z'' queue_AB = Inr queue_BA \<and>
   remove ''A'' queue_AB = Inr queue_B \<and>
   checkExpired 2500000000 queue_AB =
     Inr (True, \<lparr>key = ''A'', time = 2000000000, info = ''x''\<rparr>, queue_B) \<and>
   sorted (rev (map time (elements queue_AB))) \<and>
   sorted (map time (inserted 2 [ReQueue 0 ''A'' ''x'', ReQueue 1000000000 ''B'' ''y''])) \<and>
   sorted (rev (map time (elements queue_BA))) \<and>
   sorted (rev (map time (elements queue_B)))"
proof -
  have s: "sorted (readings [ReQueue 0 ''A'' ''x'', ReQueue 1000000000 ''B'' ''y''])"
    by simp
  have b: "\<forall>r \<in> set (readings [ReQueue 0 ''A'' ''x'', ReQueue 1000000000 ''B'' ''y'']).
             r \<le> 1500000000"
    by simp
  note t = sorted_by_expiration
    [OF run_queue_AB s, where now = 1500000000 and k = "''A''" and i = "''z''"
       and ?q1.0 = queue_BA and ?q2.0 = queue_B and t = 2500000000 and get = True
       and e = "\<lparr>key = ''A'', time = 2000000000, info = ''x''\<rparr>" and ?q3.0 = queue_B]
  from t have "sorted (rev (map time (elements queue_AB)))"
    and "sorted (map time (inserted 2 [ReQueue 0 ''A'' ''x'', ReQueue 1000000000 ''B'' ''y'']))"
    by blast+
  moreover from t b reQueue_queue_AB have "sorted (rev (map time (elements queue_BA)))"
    by blast
  moreover from t checkExpired_queue_AB have "sorted (rev (map time (elements queue_B)))"
    by blast
  moreover have "readings [ReQueue 0 ''A'' ''x'', ReQueue 1000000000 ''B'' ''y'']
                   = [0, 1000000000]"
    by simp
  ultimately show ?thesis
    using run_queue_AB s reQueue_queue_AB remove_queue_AB checkExpired_queue_AB by simp
qed

end
